theory Spec2Isabelle
  imports Main
begin

section \<open>The LRU replacer of rmdb (src/replacer/lru_replacer.cpp)\<close>

text \<open>
  The replacer keeps two containers: \<^verbatim>\<open>LRUlist_\<close>, a \<^verbatim>\<open>std::list\<close> of frame
  identifiers, and \<^verbatim>\<open>LRUhash_\<close>, a \<^verbatim>\<open>std::unordered_map\<close> from a frame identifier
  to an iterator into that list. The iterators alias the list's nodes, so the list is
  modelled with its nodes named: every element is a pair of the node's address and the
  frame identifier it stores, head first. An iterator is the address of a node, or the
  past-the-end iterator. The mutex is not modelled: every operation is taken as one
  atomic step.
\<close>

subsection \<open>Data\<close>

text \<open>
  Modelled from the spec: the type \<^verbatim>\<open>frame_id_t\<close>, declared in a header that is not
  among the sources. The spec calls a frame identifier an opaque integer; the code only
  copies and compares it.
\<close>

type_synonym frame_id_t = int

type_synonym node = nat

type_synonym addr = nat

datatype list_iterator = Node node | End

type_synonym std_list = "(node \<times> frame_id_t) list"

type_synonym std_unordered_map = "frame_id_t \<rightharpoonup> list_iterator"

text \<open>
  An iterator of the table designates the entry of a key, or is past the end. It is valid
  as long as the table has that entry: erasing the entry invalidates it.
\<close>

datatype map_iterator = Entry frame_id_t | MapEnd

text \<open>The caller's memory, where the output parameter of \<open>victim\<close> points.\<close>

type_synonym memory = "addr \<Rightarrow> frame_id_t"

text \<open>
  Modelled from the spec: the members of the class, declared in \<^verbatim>\<open>lru_replacer.h\<close>,
  which is not among the sources: the recency list, the presence index that maps a frame
  identifier to its position in the list, and the capacity. The names are those the code
  uses, without the trailing underscore (a name that ends with an underscore is not a
  name of a constant here). A \<^verbatim>\<open>size_t\<close> is a natural number.
\<close>

record LRUReplacer =
  LRUlist :: std_list
  LRUhash :: std_unordered_map
  max_size :: nat

subsection \<open>The operations of std::list that the code calls\<close>

text \<open>
  \<^verbatim>\<open>push_front\<close> allocates a node. The allocator returns an address that no node of the
  list has at that moment; an address that was freed may come back.
\<close>

definition fresh_node :: "std_list \<Rightarrow> node" where
  "fresh_node xs = Suc (fold max (map fst xs) 0)"

definition list_empty :: "std_list \<Rightarrow> bool" where
  "list_empty xs = (xs = [])"

definition list_size :: "std_list \<Rightarrow> nat" where
  "list_size xs = length xs"

text \<open>\<^verbatim>\<open>back\<close> and \<^verbatim>\<open>pop_back\<close>: the code calls them on a non-empty list only.\<close>

definition list_back :: "std_list \<Rightarrow> frame_id_t" where
  "list_back xs = snd (last xs)"

definition list_pop_back :: "std_list \<Rightarrow> std_list" where
  "list_pop_back xs = butlast xs"

definition list_push_front :: "frame_id_t \<Rightarrow> std_list \<Rightarrow> std_list" where
  "list_push_front v xs = (fresh_node xs, v) # xs"

definition list_begin :: "std_list \<Rightarrow> list_iterator" where
  "list_begin xs = (case xs of [] \<Rightarrow> End | (n, v) # ys \<Rightarrow> Node n)"

text \<open>
  \<^verbatim>\<open>erase(iterator)\<close> unlinks the node the iterator designates. With the past-the-end
  iterator, or an iterator to a node that is not in the list, the behaviour is undefined:
  the result is \<open>None\<close>.
\<close>

fun erase_node :: "node \<Rightarrow> std_list \<Rightarrow> std_list option" where
  "erase_node n [] = None"
| "erase_node n ((m, v) # xs) =
     (if m = n then Some xs else map_option (Cons (m, v)) (erase_node n xs))"

fun list_erase :: "list_iterator \<Rightarrow> std_list \<Rightarrow> std_list option" where
  "list_erase End xs = None"
| "list_erase (Node n) xs = erase_node n xs"

subsection \<open>The operations of std::unordered_map that the code calls\<close>

text \<open>\<^verbatim>\<open>find\<close> returns the iterator to the entry of the key, or \<^verbatim>\<open>end()\<close>.\<close>

definition hash_find :: "frame_id_t \<Rightarrow> std_unordered_map \<Rightarrow> map_iterator" where
  "hash_find k h = (if h k = None then MapEnd else Entry k)"

text \<open>
  \<^verbatim>\<open>it->first\<close> and \<^verbatim>\<open>it->second\<close> read the entry that the iterator designates in the
  table as it is at the moment of the read. Through \<^verbatim>\<open>end()\<close>, or through an iterator
  whose entry the table no longer has, the read is undefined: the result is \<open>None\<close>.
\<close>

fun hash_first :: "map_iterator \<Rightarrow> std_unordered_map \<Rightarrow> frame_id_t option" where
  "hash_first MapEnd h = None"
| "hash_first (Entry k) h = (if h k = None then None else Some k)"

fun hash_second :: "map_iterator \<Rightarrow> std_unordered_map \<Rightarrow> list_iterator option" where
  "hash_second MapEnd h = None"
| "hash_second (Entry k) h = h k"

text \<open>\<^verbatim>\<open>erase(key)\<close> returns the number of entries it removed, with the new table.\<close>

definition hash_erase :: "frame_id_t \<Rightarrow> std_unordered_map \<Rightarrow> nat \<times> std_unordered_map" where
  "hash_erase k h = ((if h k = None then 0 else 1), h(k := None))"

text \<open>\<^verbatim>\<open>h[k] = v\<close>.\<close>

definition hash_assign :: "frame_id_t \<Rightarrow> list_iterator \<Rightarrow> std_unordered_map \<Rightarrow> std_unordered_map" where
  "hash_assign k v h = h(k \<mapsto> v)"

subsection \<open>LRUReplacer\<close>

definition LRUReplacer :: "nat \<Rightarrow> LRUReplacer" where
  "LRUReplacer num_pages = \<lparr>LRUlist = [], LRUhash = Map.empty, max_size = num_pages\<rparr>"

text \<open>
  \<^verbatim>\<open>bool victim(frame_id_t* frame_id)\<close>. The pointer is \<open>None\<close> when null, the caller's
  memory is passed in and returned. On an empty list the code assigns \<^verbatim>\<open>nullptr\<close> to its
  own parameter, a local variable, and returns false. Otherwise it stores the identifier
  of the last node through the pointer (undefined with a null pointer: \<open>None\<close>), erases
  that identifier from the table, returns false when the table had no such key, and
  otherwise unlinks the last node and returns true.
\<close>

definition victim ::
  "addr option \<Rightarrow> memory \<Rightarrow> LRUReplacer \<Rightarrow> (bool \<times> memory \<times> LRUReplacer) option" where
  "victim frame_id mem s =
     (if list_empty (LRUlist s) then Some (False, mem, s)
      else case frame_id of
          None \<Rightarrow> None
        | Some a \<Rightarrow>
            let mem' = mem(a := list_back (LRUlist s));
                (erased, h') = hash_erase (mem' a) (LRUhash s)
            in if erased = 0 then Some (False, mem', s\<lparr>LRUhash := h'\<rparr>)
               else Some (True, mem', s\<lparr>LRUhash := h', LRUlist := list_pop_back (LRUlist s)\<rparr>))"

text \<open>
  \<^verbatim>\<open>void pin(frame_id_t frame_id)\<close>, statement by statement. \<^verbatim>\<open>it\<close> is what
  \<^verbatim>\<open>find\<close> returns. When it is not \<^verbatim>\<open>end()\<close>, the code first erases the key
  \<^verbatim>\<open>it->first\<close> from the table, and only then reads \<^verbatim>\<open>it->second\<close> to hand it to
  \<^verbatim>\<open>LRUlist_.erase\<close>: the read goes through \<^verbatim>\<open>it\<close> in the table after the erase.
  The result is \<open>None\<close> when a read or the erase of the list is undefined.
\<close>

definition pin :: "frame_id_t \<Rightarrow> LRUReplacer \<Rightarrow> LRUReplacer option" where
  "pin frame_id s =
     (let it = hash_find frame_id (LRUhash s)
      in if it \<noteq> MapEnd then
           (case hash_first it (LRUhash s) of
              None \<Rightarrow> None
            | Some it_first \<Rightarrow>
                let h' = snd (hash_erase it_first (LRUhash s))
                in (case hash_second it h' of
                      None \<Rightarrow> None
                    | Some it_second \<Rightarrow>
                        (case list_erase it_second (LRUlist s) of
                           None \<Rightarrow> None
                         | Some l' \<Rightarrow> Some (s\<lparr>LRUhash := h', LRUlist := l'\<rparr>))))
         else Some s)"

text \<open>The loop of \<open>unpin\<close> over the list: is some element equal to the identifier?\<close>

fun list_scan :: "frame_id_t \<Rightarrow> std_list \<Rightarrow> bool" where
  "list_scan frame_id [] = False"
| "list_scan frame_id ((n, it) # xs) = (if it = frame_id then True else list_scan frame_id xs)"

definition unpin :: "frame_id_t \<Rightarrow> LRUReplacer \<Rightarrow> LRUReplacer" where
  "unpin frame_id s =
     (if list_size (LRUlist s) \<ge> max_size s then s
      else if list_scan frame_id (LRUlist s) then s
      else let l' = list_push_front frame_id (LRUlist s)
           in s\<lparr>LRUlist := l', LRUhash := hash_assign frame_id (list_begin l') (LRUhash s)\<rparr>)"

definition Size :: "LRUReplacer \<Rightarrow> nat" where
  "Size s = list_size (LRUlist s)"

subsection \<open>Sequences of calls\<close>

text \<open>
  A caller is a finite sequence of calls on one replacer. A \<open>victim\<close> call names the
  address of its output variable; its result is the boolean together with what that
  variable holds after the call.
\<close>

datatype call = CallVictim addr | CallPin frame_id_t | CallUnpin frame_id_t | CallSize

datatype ret = VictimRet bool frame_id_t | Void | SizeRet nat

fun step :: "call \<Rightarrow> memory \<times> LRUReplacer \<Rightarrow> (ret \<times> memory \<times> LRUReplacer) option" where
  "step (CallVictim a) (mem, s) =
     (case victim (Some a) mem s of
        None \<Rightarrow> None
      | Some (found, mem', s') \<Rightarrow> Some (VictimRet found (mem' a), mem', s'))"
| "step (CallPin f) (mem, s) =
     (case pin f s of None \<Rightarrow> None | Some s' \<Rightarrow> Some (Void, mem, s'))"
| "step (CallUnpin f) (mem, s) = Some (Void, mem, unpin f s)"
| "step CallSize (mem, s) = Some (SizeRet (Size s), mem, s)"

fun run :: "call list \<Rightarrow> memory \<times> LRUReplacer \<Rightarrow> (ret list \<times> memory \<times> LRUReplacer) option" where
  "run [] ms = Some ([], ms)"
| "run (c # cs) ms =
     (case step c ms of
        None \<Rightarrow> None
      | Some (r, ms') \<Rightarrow>
          (case run cs ms' of
             None \<Rightarrow> None
           | Some (rs, ms'') \<Rightarrow> Some (r # rs, ms'')))"

subsection \<open>The invariant\<close>

text \<open>
  \<open>linked\<close>: the table has an entry for a frame identifier exactly when a node of the
  list stores that identifier, and the entry is the iterator to that node. \<open>wf\<close> adds
  that no two nodes share an address, that no two nodes store the same identifier, and
  that the list is no longer than \<open>max_size\<close>.
\<close>

definition linked :: "LRUReplacer \<Rightarrow> bool" where
  "linked s = (\<forall>f it. LRUhash s f = Some it \<longleftrightarrow> (\<exists>n. it = Node n \<and> (n, f) \<in> set (LRUlist s)))"

definition wf :: "LRUReplacer \<Rightarrow> bool" where
  "wf s = (distinct (map fst (LRUlist s)) \<and> distinct (map snd (LRUlist s)) \<and> linked s
           \<and> length (LRUlist s) \<le> max_size s)"

text \<open>
  The branch of \<open>victim\<close> that returns false on a non-empty list: the list has a last
  node, and erasing its identifier from the table removes no entry.
\<close>

definition victim_check_fails :: "LRUReplacer \<Rightarrow> bool" where
  "victim_check_fails s =
     (\<not> list_empty (LRUlist s) \<and> fst (hash_erase (list_back (LRUlist s)) (LRUhash s)) = 0)"

section \<open>Properties\<close>

subsection \<open>The containers\<close>

lemma fold_max_ge: "(a::nat) \<le> fold max xs a \<and> (\<forall>x\<in>set xs. x \<le> fold max xs a)"
proof (induction xs arbitrary: a)
  case Nil
  show ?case by simp
next
  case (Cons y ys)
  have "max y a \<le> fold max ys (max y a)" and "\<forall>x\<in>set ys. x \<le> fold max ys (max y a)"
    using Cons.IH [of "max y a"] by simp_all
  then show ?case by auto
qed

lemma fresh_node_notin: "fresh_node xs \<notin> fst ` set xs"
proof
  assume "fresh_node xs \<in> fst ` set xs"
  then have "fresh_node xs \<in> set (map fst xs)" by simp
  then have "fresh_node xs \<le> fold max (map fst xs) 0"
    using fold_max_ge [of 0 "map fst xs"] by blast
  then show False by (simp add: fresh_node_def)
qed

lemma list_scan_iff: "list_scan f xs \<longleftrightarrow> f \<in> snd ` set xs"
  by (induction xs) (auto simp: rev_image_eqI)

lemma eq_snd_imp_eq_fst:
  "distinct (map snd xs) \<Longrightarrow> (m, v) \<in> set xs \<Longrightarrow> (n, v) \<in> set xs \<Longrightarrow> m = n"
  by (induction xs) (auto simp: rev_image_eqI)

lemma butlast_filter:
  assumes "distinct (map fst xs)" and "xs \<noteq> []" and "fst (last xs) = n"
  shows "butlast xs = filter (\<lambda>p. fst p \<noteq> n) xs"
proof -
  from assms(2) have xs: "xs = butlast xs @ [last xs]" by simp
  with assms(1) have "distinct (map fst (butlast xs @ [last xs]))" by simp
  then have "n \<notin> fst ` set (butlast xs)" using assms(3) by auto
  then have "filter (\<lambda>p. fst p \<noteq> n) (butlast xs) = butlast xs"
    by (auto simp: filter_id_conv)
  then have "filter (\<lambda>p. fst p \<noteq> n) (butlast xs @ [last xs]) = butlast xs"
    using assms(3) by simp
  with xs show ?thesis by simp
qed

subsection \<open>Every operation keeps the invariant\<close>

lemma wf_remove:
  assumes "wf s" and "(n, f) \<in> set (LRUlist s)"
  shows "wf (s\<lparr>LRUhash := (LRUhash s)(f := None),
                 LRUlist := filter (\<lambda>p. fst p \<noteq> n) (LRUlist s)\<rparr>)"
proof -
  let ?xs = "LRUlist s"
  let ?ys = "filter (\<lambda>p. fst p \<noteq> n) ?xs"
  from assms(1) have d1: "distinct (map fst ?xs)" and d2: "distinct (map snd ?xs)"
    and l: "linked s" and b: "length ?xs \<le> max_size s"
    by (simp_all add: wf_def)
  have mem: "(m, g) \<in> set ?ys \<longleftrightarrow> g \<noteq> f \<and> (m, g) \<in> set ?xs" for m g
  proof
    assume "(m, g) \<in> set ?ys"
    then have in_xs: "(m, g) \<in> set ?xs" and "m \<noteq> n" by auto
    with eq_snd_imp_eq_fst [OF d2 _ assms(2), of m] show "g \<noteq> f \<and> (m, g) \<in> set ?xs"
      by auto
  next
    assume a: "g \<noteq> f \<and> (m, g) \<in> set ?xs"
    with eq_key_imp_eq_value [OF d1 _ assms(2), of g] have "m \<noteq> n" by auto
    with a show "(m, g) \<in> set ?ys" by simp
  qed
  have "distinct (map fst ?ys)" using d1 by (rule distinct_map_filter)
  moreover have "distinct (map snd ?ys)" using d2 by (rule distinct_map_filter)
  moreover have "length ?ys \<le> max_size s"
    using b length_filter_le [of "\<lambda>p. fst p \<noteq> n" ?xs] by linarith
  moreover have "linked (s\<lparr>LRUhash := (LRUhash s)(f := None), LRUlist := ?ys\<rparr>)"
    using l mem by (simp add: linked_def)
  ultimately show ?thesis by (simp add: wf_def)
qed

lemma wf_fresh: "wf (LRUReplacer c)"
  by (simp add: wf_def linked_def LRUReplacer_def)

lemma wf_unpin: 
  assumes "wf s"
  shows "wf (unpin f s)"
proof (cases "max_size s \<le> length (LRUlist s) \<or> f \<in> snd ` set (LRUlist s)")
  case True
  then have "unpin f s = s" by (auto simp: unpin_def list_size_def list_scan_iff)
  with assms show ?thesis by simp
next
  case False
  let ?xs = "LRUlist s"
  let ?n = "fresh_node ?xs"
  from False have u: "unpin f s = s\<lparr>LRUlist := (?n, f) # ?xs, LRUhash := (LRUhash s)(f \<mapsto> Node ?n)\<rparr>"
    by (simp add: unpin_def list_size_def list_scan_iff list_push_front_def list_begin_def
        hash_assign_def)
  from assms have d1: "distinct (map fst ?xs)" and d2: "distinct (map snd ?xs)"
    and l: "linked s" by (simp_all add: wf_def)
  have n: "?n \<notin> fst ` set ?xs" by (rule fresh_node_notin)
  have f: "f \<notin> snd ` set ?xs" using False by simp
  then have f': "(m, f) \<notin> set ?xs" for m by force
  have "linked (s\<lparr>LRUlist := (?n, f) # ?xs, LRUhash := (LRUhash s)(f \<mapsto> Node ?n)\<rparr>)"
    using l f' by (auto simp: linked_def)
  with d1 d2 n f False show ?thesis unfolding u by (simp add: wf_def)
qed


lemma linked_None: "linked s \<Longrightarrow> LRUhash s f = None \<longleftrightarrow> f \<notin> snd ` set (LRUlist s)"
proof
  assume l: "linked s" and "LRUhash s f = None"
  then have "(n, f) \<notin> set (LRUlist s)" for n unfolding linked_def by (metis option.distinct(1))
  then show "f \<notin> snd ` set (LRUlist s)" by force
next
  assume l: "linked s" and f: "f \<notin> snd ` set (LRUlist s)"
  show "LRUhash s f = None"
  proof (cases "LRUhash s f")
    case (Some it)
    with l obtain n where "(n, f) \<in> set (LRUlist s)" unfolding linked_def by blast
    with f show ?thesis by force
  qed simp
qed

lemma pin_untracked: "LRUhash s f = None \<Longrightarrow> pin f s = Some s"
  by (simp add: pin_def hash_find_def)

lemma pin_tracked: "LRUhash s f \<noteq> None \<Longrightarrow> pin f s = None"
  by (simp add: pin_def hash_find_def hash_erase_def)

lemma pin_Some: "pin f s = Some s' \<Longrightarrow> s' = s \<and> LRUhash s f = None"
  by (cases "LRUhash s f = None") (simp_all add: pin_untracked pin_tracked)

lemma victim_empty: "LRUlist s = [] \<Longrightarrow> victim p mem s = Some (False, mem, s)"
  by (simp add: victim_def list_empty_def)

lemma victim_nonempty:
  assumes "wf s" and "LRUlist s \<noteq> []"
  shows "victim (Some a) mem s =
           Some (True, mem(a := snd (last (LRUlist s))),
                 s\<lparr>LRUhash := (LRUhash s)(snd (last (LRUlist s)) := None),
                   LRUlist := butlast (LRUlist s)\<rparr>)"
proof -
  obtain n f where nf: "last (LRUlist s) = (n, f)" by (cases "last (LRUlist s)")
  with assms(2) have "(n, f) \<in> set (LRUlist s)" using last_in_set by fastforce
  with assms(1) have "LRUhash s f = Some (Node n)" by (simp add: wf_def linked_def)
  with assms(2) nf show ?thesis
    by (simp add: victim_def list_empty_def list_back_def hash_erase_def list_pop_back_def)
qed

lemma wf_victim:
  assumes "wf s"
  shows "\<exists>mem' s'. victim (Some a) mem s = Some (LRUlist s \<noteq> [], mem', s') \<and> wf s' \<and>
           max_size s' = max_size s \<and> set (LRUlist s') \<subseteq> set (LRUlist s) \<and>
           (LRUlist s \<noteq> [] \<longrightarrow> mem' a \<in> snd ` set (LRUlist s))"
proof (cases "LRUlist s = []")
  case True
  with assms show ?thesis by (simp add: victim_empty)
next
  case False
  obtain n f where nf: "last (LRUlist s) = (n, f)" by (cases "last (LRUlist s)")
  with False have in_list: "(n, f) \<in> set (LRUlist s)" using last_in_set by fastforce
  from assms have "distinct (map fst (LRUlist s))" by (simp add: wf_def)
  then have b: "butlast (LRUlist s) = filter (\<lambda>p. fst p \<noteq> n) (LRUlist s)"
    using False nf by (simp add: butlast_filter)
  have "wf (s\<lparr>LRUhash := (LRUhash s)(f := None), LRUlist := butlast (LRUlist s)\<rparr>)"
    unfolding b using assms in_list by (rule wf_remove)
  moreover have "f \<in> snd ` set (LRUlist s)" using in_list by force
  ultimately show ?thesis
    using False nf victim_nonempty [OF assms False, of a mem] b by auto
qed

lemma step_unpin_list:
  "set (LRUlist (unpin g s)) \<subseteq> insert (fresh_node (LRUlist s), g) (set (LRUlist s))"
  by (auto simp: unpin_def list_push_front_def Let_def)

lemma unpin_max_size: "max_size (unpin g s) = max_size s"
  by (simp add: unpin_def Let_def)

lemma wf_step:
  assumes "wf s" and "step c (mem, s) = Some (r, mem', s')"
  shows "wf s' \<and> max_size s' = max_size s"
proof (cases c)
  case (CallVictim a)
  from wf_victim [OF assms(1), of a mem] assms(2) show ?thesis using CallVictim by auto
next
  case (CallPin f)
  with assms(2) obtain s1 where "pin f s = Some s1" and "s' = s1"
    by (auto split: option.splits)
  with pin_Some [of f s s1] assms(1) show ?thesis by simp
next
  case (CallUnpin f)
  with wf_unpin [OF assms(1), of f] assms(2) show ?thesis by (auto simp: unpin_max_size)
next
  case CallSize
  with assms show ?thesis by auto
qed

lemma wf_run:
  assumes "wf s" and "run cs (mem, s) = Some (rs, mem', s')"
  shows "wf s' \<and> max_size s' = max_size s"
  using assms
proof (induction cs arbitrary: mem s rs)
  case Nil
  then show ?case by simp
next
  case (Cons c cs)
  from Cons.prems(2) obtain r mem1 s1 rs1 where
    1: "step c (mem, s) = Some (r, mem1, s1)" and 2: "run cs (mem1, s1) = Some (rs1, mem', s')"
    by (auto split: option.splits)
  from wf_step [OF Cons.prems(1) 1] have w1: "wf s1" and m1: "max_size s1 = max_size s"
    by simp_all
  from Cons.IH [OF w1 2] m1 show ?case by simp
qed

subsection \<open>Single calls\<close>

text \<open>
  C4: in every state with no evictable frame (\<open>Size\<close> is 0), \<open>victim\<close> returns false,
  "not found", and the replacer after the call is the replacer before it: neither the
  list nor the table has changed. This holds for every pointer, the null pointer too.
\<close>

theorem victim_empty_not_found:
  "Size s = 0 \<Longrightarrow> \<exists>mem'. victim frame_id mem s = Some (False, mem', s)"
  by (simp add: Size_def list_size_def victim_def list_empty_def)

theorem victim_empty_not_found_witness:
  "Size (LRUReplacer 3) = 0 \<and>
   (\<exists>mem'. victim (Some 0) (\<lambda>a. 7) (LRUReplacer 3) = Some (False, mem', LRUReplacer 3))"
  using victim_empty_not_found [of "LRUReplacer 3" "Some 0" "\<lambda>a. 7"]
  by (simp add: Size_def list_size_def LRUReplacer_def)

text \<open>
  C10: when the list is empty, \<open>victim\<close> returns false and the caller's memory after the
  call is the memory before it: nothing is written through the output parameter. The
  assignment of the null pointer in that branch changes the parameter, a local variable
  of \<open>victim\<close>, which the model drops with the call.
\<close>

theorem victim_empty_output_untouched:
  "list_empty (LRUlist s) \<Longrightarrow> \<exists>s'. victim frame_id mem s = Some (False, mem, s')"
  by (simp add: victim_def)

theorem victim_empty_output_untouched_witness:
  "list_empty (LRUlist (LRUReplacer 2)) \<and>
   (\<exists>s'. victim (Some 4) (\<lambda>a. 9) (LRUReplacer 2) = Some (False, \<lambda>a. 9, s'))"
  using victim_empty_output_untouched [of "LRUReplacer 2" "Some 4" "\<lambda>a. 9"]
  by (simp add: list_empty_def LRUReplacer_def)

text \<open>
  C5: \<open>unpin f\<close> changes the state exactly when \<open>f\<close> is stored in no node of the list
  and the list is shorter than \<open>max_size\<close>. Then a new node that stores \<open>f\<close> is the head
  of the list, its address is the address of no node of the old list, and the table maps
  \<open>f\<close> to the iterator \<open>begin()\<close> of the new list. When either guard fails the state
  after the call is the state before it. \<open>unpin\<close> has a result for every identifier
  and every state: it has no error value.
\<close>

theorem unpin_guards:
  "(f \<notin> snd ` set (LRUlist s) \<and> Size s < max_size s \<longrightarrow>
      unpin f s = s\<lparr>LRUlist := (fresh_node (LRUlist s), f) # LRUlist s,
                     LRUhash := (LRUhash s)(f \<mapsto> Node (fresh_node (LRUlist s)))\<rparr> \<and>
      fresh_node (LRUlist s) \<notin> fst ` set (LRUlist s) \<and>
      LRUhash (unpin f s) f = Some (list_begin (LRUlist (unpin f s))) \<and>
      unpin f s \<noteq> s) \<and>
   (\<not> (f \<notin> snd ` set (LRUlist s) \<and> Size s < max_size s) \<longrightarrow> unpin f s = s)"
proof (cases "f \<notin> snd ` set (LRUlist s) \<and> Size s < max_size s")
  case True
  let ?n = "fresh_node (LRUlist s)"
  let ?s' = "s\<lparr>LRUlist := (?n, f) # LRUlist s, LRUhash := (LRUhash s)(f \<mapsto> Node ?n)\<rparr>"
  from True have u: "unpin f s = ?s'"
    by (simp add: unpin_def Size_def list_size_def list_scan_iff list_push_front_def
        list_begin_def hash_assign_def)
  have "LRUlist ?s' \<noteq> LRUlist s" by simp
  then have "?s' \<noteq> s" by metis
  moreover have "LRUhash ?s' f = Some (list_begin (LRUlist ?s'))" by (simp add: list_begin_def)
  ultimately show ?thesis using True u fresh_node_notin [of "LRUlist s"] by simp
next
  case False
  then have "unpin f s = s"
    by (auto simp: unpin_def Size_def list_size_def list_scan_iff)
  with False show ?thesis by simp
qed

theorem unpin_guards_witness:
  "5 \<notin> snd ` set (LRUlist (LRUReplacer 1)) \<and> Size (LRUReplacer 1) < max_size (LRUReplacer 1) \<and>
   unpin 5 (LRUReplacer 1) = \<lparr>LRUlist = [(1, 5)], LRUhash = [5 \<mapsto> Node 1], max_size = 1\<rparr> \<and>
   \<not> Size (unpin 5 (LRUReplacer 1)) < max_size (unpin 5 (LRUReplacer 1)) \<and>
   unpin 6 (unpin 5 (LRUReplacer 1)) = unpin 5 (LRUReplacer 1)"
proof -
  have a: "5 \<notin> snd ` set (LRUlist (LRUReplacer 1)) \<and> Size (LRUReplacer 1) < max_size (LRUReplacer 1)"
    by (simp add: LRUReplacer_def Size_def list_size_def)
  with unpin_guards [of 5 "LRUReplacer 1"]
  have u: "unpin 5 (LRUReplacer 1) = \<lparr>LRUlist = [(1, 5)], LRUhash = [5 \<mapsto> Node 1], max_size = 1\<rparr>"
    by (simp add: LRUReplacer_def fresh_node_def)
  then have b: "\<not> Size (unpin 5 (LRUReplacer 1)) < max_size (unpin 5 (LRUReplacer 1))"
    by (simp add: Size_def list_size_def)
  with unpin_guards [of 6 "unpin 5 (LRUReplacer 1)"]
  have "unpin 6 (unpin 5 (LRUReplacer 1)) = unpin 5 (LRUReplacer 1)" by blast
  with a u b show ?thesis by blast
qed

lemma unpin_twice: "unpin f (unpin f s) = unpin f s"
  by (simp add: unpin_def Let_def list_push_front_def)

text \<open>
  C6: the claim fails on the code for a tracked frame. After \<open>unpin 4\<close> on a fresh
  replacer of capacity 2 the table maps 4 to the iterator of node 1; \<open>pin 4\<close> then erases
  the entry and reads \<^verbatim>\<open>it->second\<close> through the invalidated iterator, so the first
  \<open>pin\<close> has no defined result, and neither has the second. The parts of the claim that
  do not go through that read hold there: \<open>pin\<close> of an untracked frame changes nothing,
  and \<open>unpin\<close> twice is \<open>unpin\<close> once.
\<close>

theorem pin_tracked_frame_undefined:
  "LRUhash (unpin 4 (LRUReplacer 2)) 4 = Some (Node 1) \<and>
   pin 4 (unpin 4 (LRUReplacer 2)) = None \<and>
   Option.bind (pin 4 (unpin 4 (LRUReplacer 2))) (pin 4) = None \<and>
   pin 4 (LRUReplacer 2) = Some (LRUReplacer 2) \<and>
   unpin 4 (unpin 4 (LRUReplacer 2)) = unpin 4 (LRUReplacer 2)"
proof -
  have h: "LRUhash (unpin 4 (LRUReplacer 2)) 4 = Some (Node 1)"
    by (simp add: unpin_def LRUReplacer_def list_size_def list_push_front_def list_begin_def
        hash_assign_def fresh_node_def)
  then have p: "pin 4 (unpin 4 (LRUReplacer 2)) = None" by (simp add: pin_tracked)
  have "pin 4 (LRUReplacer 2) = Some (LRUReplacer 2)"
    by (simp add: pin_untracked LRUReplacer_def)
  with h p show ?thesis by (simp add: unpin_twice)
qed

subsection \<open>Sequences of calls that run to their end\<close>

text \<open>
  A sequence of calls has a defined result exactly as long as it pins no tracked frame. On
  such sequences the invariant holds, so the properties below hold of every state the
  model reaches; the theorems for C2, C3, C7, C8 and C9 show the sequences on which the
  code leaves them undefined.
\<close>

lemma run_pin_tracked: "LRUhash s f \<noteq> None \<Longrightarrow> run (CallPin f # cs) (mem, s) = None"
  by (simp add: pin_tracked)

lemma run_defined_wf:
  "run cs (mem, LRUReplacer c) = Some (rs, mem', s) \<Longrightarrow> wf s \<and> max_size s = c"
  using wf_run [OF wf_fresh, of cs mem c rs mem' s] by (simp add: LRUReplacer_def)

lemma run_size_bound:
  assumes "wf s" and "run cs (mem, s) = Some (rs, mem', s')" and "SizeRet n \<in> set rs"
  shows "n \<le> max_size s"
  using assms
proof (induction cs arbitrary: mem s rs)
  case Nil
  then show ?case by simp
next
  case (Cons c cs)
  from Cons.prems(2) obtain r mem1 s1 rs1 where
    1: "step c (mem, s) = Some (r, mem1, s1)" and 2: "run cs (mem1, s1) = Some (rs1, mem', s')"
    and 3: "rs = r # rs1"
    by (auto split: option.splits)
  from wf_step [OF Cons.prems(1) 1] have w1: "wf s1" and m1: "max_size s1 = max_size s"
    by simp_all
  show ?case
  proof (cases "SizeRet n = r")
    case True
    with 1 have "n = Size s" by (cases c) (auto split: option.splits)
    with Cons.prems(1) show ?thesis by (simp add: Size_def list_size_def wf_def)
  next
    case False
    with Cons.prems(3) 3 have "SizeRet n \<in> set rs1" by auto
    with Cons.IH [OF w1 2] m1 show ?thesis by simp
  qed
qed

lemma run_defined_size:
  assumes "run cs (mem, LRUReplacer c) = Some (rs, mem', s)"
  shows "Size s \<le> c \<and> (\<forall>n. SizeRet n \<in> set rs \<longrightarrow> n \<le> c)"
proof -
  from run_defined_wf [OF assms] have "Size s \<le> c"
    by (auto simp: wf_def Size_def list_size_def)
  moreover have "\<forall>n. SizeRet n \<in> set rs \<longrightarrow> n \<le> c"
    using run_size_bound [OF wf_fresh assms] by (simp add: LRUReplacer_def)
  ultimately show ?thesis by simp
qed

lemma run_defined_index:
  assumes "run cs (mem, LRUReplacer c) = Some (rs, mem', s)"
  shows "dom (LRUhash s) = snd ` set (LRUlist s) \<and> distinct (map snd (LRUlist s)) \<and>
         distinct (map fst (LRUlist s)) \<and>
         (\<forall>f it. LRUhash s f = Some it \<longrightarrow> (\<exists>n. it = Node n \<and> (n, f) \<in> set (LRUlist s)))"
proof -
  from run_defined_wf [OF assms] have l: "linked s" and d1: "distinct (map fst (LRUlist s))"
    and d2: "distinct (map snd (LRUlist s))" by (simp_all add: wf_def)
  have "f \<in> dom (LRUhash s) \<longleftrightarrow> f \<in> snd ` set (LRUlist s)" for f
    using linked_None [OF l, of f] by auto
  then have "dom (LRUhash s) = snd ` set (LRUlist s)" by blast
  moreover have "\<forall>f it. LRUhash s f = Some it \<longrightarrow> (\<exists>n. it = Node n \<and> (n, f) \<in> set (LRUlist s))"
    using l by (simp add: linked_def)
  ultimately show ?thesis using d1 d2 by blast
qed

lemma run_defined_check:
  assumes "run cs (mem, LRUReplacer c) = Some (rs, mem', s)"
  shows "\<not> victim_check_fails s"
proof
  assume f: "victim_check_fails s"
  then have ne: "LRUlist s \<noteq> []" by (simp add: victim_check_fails_def list_empty_def)
  from run_defined_wf [OF assms] have w: "wf s" by simp
  from f have "victim (Some 0) (\<lambda>a. 0) s =
      Some (False, (\<lambda>a. 0)(0 := list_back (LRUlist s)),
            s\<lparr>LRUhash := (LRUhash s)(list_back (LRUlist s) := None)\<rparr>)"
    by (simp add: victim_check_fails_def victim_def hash_erase_def)
  with victim_nonempty [OF w ne, of 0 "\<lambda>a. 0"] show False by simp
qed




text \<open>
  C8: the claim is not established by the code after \<open>pin\<close> of a tracked frame. After
  \<open>unpin 1\<close> the table maps 1 to the iterator of the node that stores 1. In \<open>pin 1\<close> the
  table without that entry is the one \<^verbatim>\<open>it->second\<close> is read from: the read finds no
  entry, no defined iterator reaches \<^verbatim>\<open>LRUlist_.erase\<close>, and the call has no defined
  result in which the keys of the table and the identifiers of the list could agree.
\<close>

theorem index_pin_undefined:
  "LRUhash (unpin 1 (LRUReplacer 3)) = [1 \<mapsto> Node 1] \<and>
   LRUlist (unpin 1 (LRUReplacer 3)) = [(1, 1)] \<and>
   hash_find 1 [1 \<mapsto> Node 1] = Entry 1 \<and>
   hash_second (Entry 1) (snd (hash_erase 1 [1 \<mapsto> Node 1])) = None \<and>
   run [CallUnpin 1, CallPin 1] (\<lambda>a. 0, LRUReplacer 3) = None"
  by (simp add: LRUReplacer_def unpin_def list_size_def list_push_front_def
      list_begin_def hash_assign_def fresh_node_def pin_tracked hash_find_def hash_erase_def)


subsection \<open>Pinned frames\<close>

lemma step_keeps_unlisted:
  assumes "wf s" and "f \<notin> snd ` set (LRUlist s)" and "c \<noteq> CallUnpin f"
    and "step c (mem, s) = Some (r, mem', s')"
  shows "r \<noteq> VictimRet True f \<and> f \<notin> snd ` set (LRUlist s')"
proof (cases c)
  case (CallVictim a)
  from wf_victim [OF assms(1), of a mem] obtain m1 s1 where
    v: "victim (Some a) mem s = Some (LRUlist s \<noteq> [], m1, s1)"
    and sub: "set (LRUlist s1) \<subseteq> set (LRUlist s)"
    and out: "LRUlist s \<noteq> [] \<longrightarrow> m1 a \<in> snd ` set (LRUlist s)" by blast
  from v assms(4) CallVictim have r: "r = VictimRet (LRUlist s \<noteq> []) (m1 a)" and s': "s' = s1"
    by auto
  from sub assms(2) s' have "f \<notin> snd ` set (LRUlist s')" by auto
  moreover from r out assms(2) have "r \<noteq> VictimRet True f" by auto
  ultimately show ?thesis by simp
next
  case (CallPin g)
  with assms(4) obtain s1 where "pin g s = Some s1" and "r = Void" and "s' = s1"
    by (auto split: option.splits)
  with pin_Some [of g s s1] assms(2) show ?thesis by simp
next
  case (CallUnpin g)
  with assms(3) have "g \<noteq> f" by simp
  from CallUnpin assms(4) have "r = Void" and s': "s' = unpin g s" by simp_all
  have "f \<notin> snd ` set (LRUlist (unpin g s))"
    using step_unpin_list [of g s] assms(2) \<open>g \<noteq> f\<close> by force
  with \<open>r = Void\<close> s' show ?thesis by simp
next
  case CallSize
  with assms(2,4) show ?thesis by auto
qed

lemma run_keeps_unlisted:
  assumes "wf s" and "f \<notin> snd ` set (LRUlist s)" and "CallUnpin f \<notin> set cs"
    and "run cs (mem, s) = Some (rs, mem', s')"
  shows "VictimRet True f \<notin> set rs \<and> f \<notin> snd ` set (LRUlist s')"
  using assms
proof (induction cs arbitrary: mem s rs)
  case Nil
  then show ?case by simp
next
  case (Cons c cs)
  from Cons.prems(4) obtain r mem1 s1 rs1 where
    1: "step c (mem, s) = Some (r, mem1, s1)" and 2: "run cs (mem1, s1) = Some (rs1, mem', s')"
    and 3: "rs = r # rs1"
    by (auto split: option.splits)
  from wf_step [OF Cons.prems(1) 1] have w1: "wf s1" by simp
  from Cons.prems(3) have c: "c \<noteq> CallUnpin f" and cs: "CallUnpin f \<notin> set cs" by auto
  from step_keeps_unlisted [OF Cons.prems(1,2) c 1]
  have 4: "r \<noteq> VictimRet True f" "f \<notin> snd ` set (LRUlist s1)" by simp_all
  from Cons.IH [OF w1 4(2) cs 2] 4(1) 3 show ?case by simp
qed


subsection \<open>Eviction order\<close>

lemma run_append:
  "run (xs @ ys) ms =
     (case run xs ms of
        None \<Rightarrow> None
      | Some (rs, ms') \<Rightarrow>
          (case run ys ms' of None \<Rightarrow> None | Some (rs', ms'') \<Rightarrow> Some (rs @ rs', ms'')))"
  by (induction xs arbitrary: ms) (auto split: option.splits)

lemma unpin_push:
  assumes "f \<notin> snd ` set (LRUlist s)" and "length (LRUlist s) < max_size s"
  shows "unpin f s = s\<lparr>LRUlist := (fresh_node (LRUlist s), f) # LRUlist s,
                        LRUhash := (LRUhash s)(f \<mapsto> Node (fresh_node (LRUlist s)))\<rparr>"
  using assms
  by (simp add: unpin_def list_size_def list_scan_iff list_push_front_def list_begin_def
      hash_assign_def)

lemma run_unpins:
  assumes "wf s" and "distinct us" and "set us \<inter> snd ` set (LRUlist s) = {}"
    and "length (LRUlist s) + length us \<le> max_size s"
  shows "\<exists>s'. run (map CallUnpin us) (mem, s) = Some (replicate (length us) Void, mem, s') \<and>
           wf s' \<and> map snd (LRUlist s') = rev us @ map snd (LRUlist s) \<and>
           max_size s' = max_size s"
  using assms
proof (induction us arbitrary: s)
  case Nil
  then show ?case by simp
next
  case (Cons u us)
  let ?s1 = "unpin u s"
  from Cons.prems(3) have u: "u \<notin> snd ` set (LRUlist s)" by simp
  from Cons.prems(4) have lt: "length (LRUlist s) < max_size s" by simp
  have l1: "LRUlist ?s1 = (fresh_node (LRUlist s), u) # LRUlist s"
    by (simp add: unpin_push [OF u lt])
  have m1: "max_size ?s1 = max_size s" by (rule unpin_max_size)
  have w1: "wf ?s1" using Cons.prems(1) by (rule wf_unpin)
  have d1: "distinct us" using Cons.prems(2) by simp
  have i1: "set us \<inter> snd ` set (LRUlist ?s1) = {}"
    using Cons.prems(2,3) l1 by auto
  have b1: "length (LRUlist ?s1) + length us \<le> max_size ?s1"
    using Cons.prems(4) l1 m1 by simp
  from Cons.IH [OF w1 d1 i1 b1] obtain s' where
    r: "run (map CallUnpin us) (mem, ?s1) = Some (replicate (length us) Void, mem, s')"
    and w: "wf s'" and o: "map snd (LRUlist s') = rev us @ map snd (LRUlist ?s1)"
    and m: "max_size s' = max_size ?s1" by blast
  from r w o m l1 m1 show ?case by simp
qed

lemma wf_empty_list: "wf s \<Longrightarrow> LRUlist s = [] \<Longrightarrow> LRUhash s = Map.empty"
proof
  fix f
  assume "wf s" and "LRUlist s = []"
  then show "LRUhash s f = None" using linked_None [of s f] by (simp add: wf_def)
qed

lemma run_victims:
  assumes "wf s" and "map snd (LRUlist s) = rev us" and "length addrs = length us"
  shows "\<exists>mem'. run (map CallVictim addrs) (mem, s) =
           Some (map (VictimRet True) us, mem', s\<lparr>LRUlist := [], LRUhash := Map.empty\<rparr>)"
  using assms
proof (induction us arbitrary: s addrs mem)
  case Nil
  then have "LRUlist s = []" and "addrs = []" by simp_all
  with wf_empty_list [OF Nil.prems(1)] show ?case by simp
next
  case (Cons u us)
  from Cons.prems(3) obtain a addrs' where ad: "addrs = a # addrs'" and len: "length addrs' = length us"
    by (cases addrs) auto
  from Cons.prems(2) have ne: "LRUlist s \<noteq> []" by auto
  have "snd (last (LRUlist s)) = last (map snd (LRUlist s))" using ne by (simp add: last_map)
  with Cons.prems(2) have lst: "snd (last (LRUlist s)) = u" by simp
  let ?s1 = "s\<lparr>LRUhash := (LRUhash s)(u := None), LRUlist := butlast (LRUlist s)\<rparr>"
  from victim_nonempty [OF Cons.prems(1) ne, of a mem] lst
  have v: "victim (Some a) mem s = Some (True, mem(a := u), ?s1)" by simp
  from wf_victim [OF Cons.prems(1), of a mem] v have w1: "wf ?s1" by auto
  have "map snd (LRUlist ?s1) = butlast (map snd (LRUlist s))" by (simp add: map_butlast)
  with Cons.prems(2) have o1: "map snd (LRUlist ?s1) = rev us" by simp
  from Cons.IH [OF w1 o1 len, of "mem(a := u)"] obtain mem' where
    "run (map CallVictim addrs') (mem(a := u), ?s1) =
       Some (map (VictimRet True) us, mem', ?s1\<lparr>LRUlist := [], LRUhash := Map.empty\<rparr>)"
    by blast
  with v ad show ?case by simp
qed

text \<open>
  C1: on a fresh replacer of capacity \<open>c\<close>, \<open>unpin\<close> of distinct identifiers
  \<open>u1, ..., un\<close> with \<open>n \<le> c\<close>, followed by \<open>n\<close> calls of \<open>victim\<close> (each with an
  output variable), runs to its end; the \<open>victim\<close> calls all return true, with
  \<open>u1, ..., un\<close> in this order in their output variables, and the replacer is empty
  again. In any state, a \<open>victim\<close> call that returns true has stored the identifier of
  the last node of the list in its output variable, has removed that node from the list
  and has erased that identifier from the table.
\<close>

theorem victim_lru_order:
  assumes "distinct us" and "length us \<le> c" and "length addrs = length us"
  shows "(\<exists>mem'. run (map CallUnpin us @ map CallVictim addrs) (mem, LRUReplacer c) =
            Some (replicate (length us) Void @ map (VictimRet True) us, mem', LRUReplacer c)) \<and>
         (\<forall>p m s m' s'. victim p m s = Some (True, m', s') \<longrightarrow>
            \<not> list_empty (LRUlist s) \<and> p \<noteq> None \<and> m' = m(the p := list_back (LRUlist s)) \<and>
            LRUlist s' = list_pop_back (LRUlist s) \<and>
            LRUhash s' = (LRUhash s)(list_back (LRUlist s) := None) \<and>
            max_size s' = max_size s)"
proof
  have e: "set us \<inter> snd ` set (LRUlist (LRUReplacer c)) = {}"
    and b: "length (LRUlist (LRUReplacer c)) + length us \<le> max_size (LRUReplacer c)"
    using assms(2) by (simp_all add: LRUReplacer_def)
  from run_unpins [OF wf_fresh assms(1) e b, of mem] obtain s1 where
    r1: "run (map CallUnpin us) (mem, LRUReplacer c) = Some (replicate (length us) Void, mem, s1)"
    and w1: "wf s1" and o1: "map snd (LRUlist s1) = rev us @ map snd (LRUlist (LRUReplacer c))"
    and m1: "max_size s1 = max_size (LRUReplacer c)" by blast
  from o1 have o1': "map snd (LRUlist s1) = rev us" by (simp add: LRUReplacer_def)
  from run_victims [OF w1 o1' assms(3), of mem] obtain mem' where
    r2: "run (map CallVictim addrs) (mem, s1) =
           Some (map (VictimRet True) us, mem', s1\<lparr>LRUlist := [], LRUhash := Map.empty\<rparr>)"
    by blast
  have "s1\<lparr>LRUlist := [], LRUhash := Map.empty\<rparr> = LRUReplacer c"
    using m1 by (simp add: LRUReplacer_def)
  with r1 r2 show "\<exists>mem'. run (map CallUnpin us @ map CallVictim addrs) (mem, LRUReplacer c) =
            Some (replicate (length us) Void @ map (VictimRet True) us, mem', LRUReplacer c)"
    by (simp add: run_append)
next
  show "\<forall>p m s m' s'. victim p m s = Some (True, m', s') \<longrightarrow>
            \<not> list_empty (LRUlist s) \<and> p \<noteq> None \<and> m' = m(the p := list_back (LRUlist s)) \<and>
            LRUlist s' = list_pop_back (LRUlist s) \<and>
            LRUhash s' = (LRUhash s)(list_back (LRUlist s) := None) \<and>
            max_size s' = max_size s"
    by (auto simp: victim_def hash_erase_def split: if_splits option.splits)
qed

theorem victim_lru_order_witness:
  "distinct [4, 9, 2 :: int] \<and> length [4, 9, 2 :: int] \<le> 5 \<and>
   length [0, 1, 0 :: nat] = length [4, 9, 2 :: int] \<and>
   (\<exists>mem'. run [CallUnpin 4, CallUnpin 9, CallUnpin 2, CallVictim 0, CallVictim 1, CallVictim 0]
        (\<lambda>a. 0, LRUReplacer 5) =
      Some ([Void, Void, Void, VictimRet True 4, VictimRet True 9, VictimRet True 2], mem',
            LRUReplacer 5))"
proof -
  have h: "distinct [4, 9, 2 :: int]" "length [4, 9, 2 :: int] \<le> 5"
    "length [0, 1, 0 :: nat] = length [4, 9, 2 :: int]" by simp_all
  from victim_lru_order [OF h, of "\<lambda>a. 0"] h show ?thesis by (simp add: eval_nat_numeral)
qed

end
